theory Spec2Isabelle
  imports Main
begin

section \<open>Python primitives used by main.py\<close>

text \<open>
  A Python \<open>str\<close> is modelled as a \<open>string\<close>, one \<open>char\<close> per code point; the model
  therefore covers the strings whose code points lie below 256. The exceptions the
  classification code can raise on JSON-decoded input become values of \<open>error\<close>:
  \<open>int()\<close> raises \<open>ValueError\<close>, and calling \<open>.split\<close> on a decoded value that is not
  a string raises \<open>AttributeError\<close>.
\<close>

datatype error = ValueError | AttributeError

text \<open>
  \<open>s.split(sep)\<close> with a one-character separator: every occurrence of the separator
  ends a segment, so the result always has at least one segment and the empty string
  gives one empty segment.
\<close>

fun py_split :: "char \<Rightarrow> string \<Rightarrow> string list" where
  "py_split sep [] = [[]]"
| "py_split sep (c # cs) =
     (if c = sep then [] # py_split sep cs
      else (case py_split sep cs of
              [] \<Rightarrow> [[c]]
            | p # ps \<Rightarrow> (c # p) # ps))"

text \<open>
  \<open>int(s)\<close> in base 10. The interpreter drops white space at both ends (tab, line
  feed, vertical tab, form feed, carriage return, space, and below code point 256 also
  NEL (133) and the no-break space (160)), accepts one optional sign, and then wants a
  decimal digit followed by further digits, each optionally preceded by one
  underscore. Anything else raises \<open>ValueError\<close>. Python integers are unbounded; the
  interpreter's optional limit on the number of digits of a literal is not modelled.
\<close>

definition py_space :: "char \<Rightarrow> bool" where
  "py_space c = (of_char c \<in> {9, 10, 11, 12, 13, 32, 133, 160 :: nat})"

definition is_digit :: "char \<Rightarrow> bool" where
  "is_digit c = (48 \<le> (of_char c :: nat) \<and> (of_char c :: nat) \<le> 57)"

definition digit_val :: "char \<Rightarrow> int" where
  "digit_val c = int (of_char c) - 48"

definition py_strip :: "string \<Rightarrow> string" where
  "py_strip s = rev (dropWhile py_space (rev (dropWhile py_space s)))"

fun scan_digits :: "int \<Rightarrow> string \<Rightarrow> int option" where
  "scan_digits acc [] = Some acc"
| "scan_digits acc (c # cs) =
     (if is_digit c then scan_digits (10 * acc + digit_val c) cs
      else if c = CHR ''_'' then
        (case cs of
           [] \<Rightarrow> None
         | d # ds \<Rightarrow> if is_digit d then scan_digits (10 * acc + digit_val d) ds else None)
      else None)"

definition py_digits :: "string \<Rightarrow> int option" where
  "py_digits s =
     (case s of
        [] \<Rightarrow> None
      | c # cs \<Rightarrow> if is_digit c then scan_digits (digit_val c) cs else None)"

definition py_int :: "string \<Rightarrow> error + int" where
  "py_int s =
     (let t = py_strip s;
          r = (case t of
                 [] \<Rightarrow> None
               | c # cs \<Rightarrow>
                   if c = CHR ''-'' then map_option uminus (py_digits cs)
                   else if c = CHR ''+'' then py_digits cs
                   else py_digits t)
      in case r of None \<Rightarrow> Inl ValueError | Some n \<Rightarrow> Inr n)"

text \<open>
  \<open>f"{n}"\<close> for an integer: the decimal digits without leading zeros, with a minus
  sign in front of a negative number.
\<close>

definition digit_char :: "nat \<Rightarrow> char" where
  "digit_char d = char_of (48 + d)"

fun dec_nat :: "nat \<Rightarrow> string" where
  "dec_nat n = (if n < 10 then [digit_char n] else dec_nat (n div 10) @ [digit_char (n mod 10)])"

declare dec_nat.simps [simp del]

definition py_str :: "int \<Rightarrow> string" where
  "py_str n = (if n < 0 then CHR ''-'' # dec_nat (nat (- n)) else dec_nat (nat n))"

section \<open>main.py\<close>

text \<open>
  \<open>parse_version\<close>: \<open>parts[0]\<close> always exists (\<open>py_split\<close> never returns the empty
  list); the second segment is read only when there is one, later segments never.
\<close>

definition parse_version :: "string \<Rightarrow> error + (int \<times> int)" where
  "parse_version version_str =
     (let parts = py_split (CHR ''.'') version_str
      in case py_int (parts ! 0) of
           Inl e \<Rightarrow> Inl e
         | Inr major \<Rightarrow>
             (case (if length parts > 1 then py_int (parts ! 1) else Inr 0) of
                Inl e \<Rightarrow> Inl e
              | Inr minor \<Rightarrow> Inr (major, minor)))"

text \<open>
  The inventory is the dictionary \<open>json.load\<close> returns: host id to host record, in
  the order of the file, which is the order \<open>minion_data.items()\<close> iterates in. It is
  an association list; a dictionary has each key once, which theorems that need it
  assume as \<open>distinct (map fst minion_data)\<close>. A host record is itself a decoded JSON
  object, of which only the key \<open>saltversion\<close> is read; its value is a string or any
  other decoded JSON value (null, a number, a boolean, an array, an object), none of
  which has a \<open>split\<close> method.
\<close>

datatype jvalue = JStr string | JOther

type_synonym host_record = "string \<rightharpoonup> jvalue"

type_synonym inventory = "(string \<times> host_record) list"

text \<open>
  \<open>list(map(f, xs))\<close> for an \<open>f\<close> that may raise: elements are processed from left
  to right and the first exception ends the whole call.
\<close>

fun map_result :: "('a \<Rightarrow> error + 'b) \<Rightarrow> 'a list \<Rightarrow> error + 'b list" where
  "map_result f [] = Inr []"
| "map_result f (x # xs) =
     (case f x of
        Inl e \<Rightarrow> Inl e
      | Inr y \<Rightarrow> (case map_result f xs of Inl e \<Rightarrow> Inl e | Inr ys \<Rightarrow> Inr (y # ys)))"

text \<open>
  \<open>parse_version(item[1].get("saltversion"))\<close>: \<open>get\<close> returns the stored value, or
  Python's \<open>None\<close> for a missing key, and \<open>parse_version\<close> begins with
  \<open>version_str.split\<close>.
\<close>

definition parse_field :: "jvalue option \<Rightarrow> error + (int \<times> int)" where
  "parse_field v =
     (case v of
        Some (JStr s) \<Rightarrow> parse_version s
      | _ \<Rightarrow> Inl AttributeError)"

text \<open>The f-string \<open>f"{item[1][0]}.{item[1][1]}"\<close>.\<close>

definition format_version :: "int \<times> int \<Rightarrow> string" where
  "format_version v = py_str (fst v) @ ''.'' @ py_str (snd v)"

text \<open>
  \<open>filter_by_version\<close>. Each one-entry dictionary \<open>{id: "major.minor"}\<close> of the two
  version lists is the pair of its key and its value.
\<close>

definition filter_by_version ::
  "string \<Rightarrow> inventory \<Rightarrow>
     error + ((string \<times> string) list \<times> (string \<times> string) list \<times> string list)" where
  "filter_by_version max_version minion_data =
     (case parse_version max_version of
        Inl e \<Rightarrow> Inl e
      | Inr (max_version_major, max_version_minor) \<Rightarrow>
          (let all_minions = minion_data;
               unresponsive_minions =
                 map (\<lambda>item. fst item)
                   (filter (\<lambda>item. snd item ''saltversion'' = None) all_minions);
               responsive_minions =
                 filter (\<lambda>item. snd item ''saltversion'' \<noteq> None) all_minions
           in case map_result
                     (\<lambda>item. case parse_field (snd item ''saltversion'') of
                                Inl e \<Rightarrow> Inl e
                              | Inr v \<Rightarrow> Inr (fst item, v))
                     responsive_minions of
                Inl e \<Rightarrow> Inl e
              | Inr parsed_minions \<Rightarrow>
                  (let updatable_minions =
                         map (\<lambda>item. (fst item, format_version (snd item)))
                           (filter (\<lambda>item. fst (snd item) < max_version_major
                                          \<and> snd (snd item) < max_version_minor)
                              parsed_minions);
                       higher_version_minions =
                         map (\<lambda>item. (fst item, format_version (snd item)))
                           (filter (\<lambda>item. fst (snd item) = max_version_major
                                          \<and> snd (snd item) > max_version_minor)
                              parsed_minions)
                   in Inr (updatable_minions, higher_version_minions, unresponsive_minions))))"

section \<open>Notions of the specification\<close>

text \<open>The value of a string of decimal digits, read from the left.\<close>

definition dec_value :: "int \<Rightarrow> string \<Rightarrow> int" where
  "dec_value acc s = foldl (\<lambda>a c. 10 * a + digit_val c) acc s"

text \<open>
  The characters \<open>int()\<close> can accept at all: digits, white space, the two signs and
  the underscore. A segment holding any other character is not numeric.
\<close>

definition int_char :: "char \<Rightarrow> bool" where
  "int_char c = (is_digit c \<or> py_space c \<or> c = CHR ''+'' \<or> c = CHR ''-'' \<or> c = CHR ''_'')"

text \<open>
  The fourth bucket of the specification, "in range, not reported": the host reports a
  version that parses and satisfies neither the updatable nor the higher-version
  predicate against the maximum version.
\<close>

definition in_range :: "string \<Rightarrow> inventory \<Rightarrow> string \<Rightarrow> bool" where
  "in_range max_version minion_data hid =
     list_ex (\<lambda>item. fst item = hid \<and> snd item ''saltversion'' \<noteq> None \<and>
        (case (parse_version max_version, parse_field (snd item ''saltversion'')) of
           (Inr (max_major, max_minor), Inr (major, minor)) \<Rightarrow>
             \<not> (major < max_major \<and> minor < max_minor) \<and>
             \<not> (major = max_major \<and> minor > max_minor)
         | _ \<Rightarrow> False)) minion_data"

text \<open>
  What the list \<open>parsed_minions\<close> holds for a host whose version parses: its id and
  its version pair.
\<close>

definition parsed_item :: "string \<times> host_record \<Rightarrow> string \<times> (int \<times> int)" where
  "parsed_item item = (fst item, projr (parse_field (snd item ''saltversion'')))"

text \<open>
  The inventory of the end-to-end scenario of the specification, with two more hosts:
  one with the major number of the maximum version and a lower minor number, one that
  reports only a major number.
\<close>

definition sample_inventory :: inventory where
  "sample_inventory =
     [(''h1'', [''saltversion'' \<mapsto> JStr ''3006.2'']),
      (''h2'', [''saltversion'' \<mapsto> JStr ''3007.9'']),
      (''h3'', Map.empty),
      (''h4'', [''saltversion'' \<mapsto> JStr ''3007.5'']),
      (''h5'', [''saltversion'' \<mapsto> JStr ''5''])]"

text \<open>
  A decimal numeral without leading zeros, and the numeral of an integer: a minus sign
  in front of the numeral of its absolute value when it is negative.
\<close>

definition plain_decimal :: "string \<Rightarrow> bool" where
  "plain_decimal s = (s \<noteq> [] \<and> list_all is_digit s \<and> (hd s = CHR ''0'' \<longrightarrow> s = ''0''))"

definition decimal_of :: "int \<Rightarrow> string \<Rightarrow> bool" where
  "decimal_of n s =
     (if n < 0 then
        (case s of [] \<Rightarrow> False | c # d \<Rightarrow> c = CHR ''-'' \<and> plain_decimal d \<and> dec_value 0 d = - n)
      else plain_decimal s \<and> dec_value 0 s = n)"

section \<open>Splitting and integer conversion\<close>

lemma py_split_nonempty: "py_split sep s \<noteq> []"
  by (induction s) (auto split: list.splits)

lemma is_digit_digit_char: "d < 10 \<Longrightarrow> is_digit (digit_char d)"
  by (simp add: is_digit_def digit_char_def)

lemma digit_val_digit_char: "d < 10 \<Longrightarrow> digit_val (digit_char d) = int d"
  by (simp add: digit_val_def digit_char_def)

lemma dec_nat_nonempty: "dec_nat n \<noteq> []"
  by (subst dec_nat.simps) simp

lemma dec_nat_digits: "c \<in> set (dec_nat n) \<Longrightarrow> is_digit c"
proof (induction n rule: dec_nat.induct)
  case (1 n)
  show ?case
  proof (cases "n < 10")
    case True
    then have "dec_nat n = [digit_char n]" by (simp add: dec_nat.simps)
    with "1.prems" True show ?thesis by (simp add: is_digit_digit_char)
  next
    case False
    then have "dec_nat n = dec_nat (n div 10) @ [digit_char (n mod 10)]"
      by (simp add: dec_nat.simps [of n])
    with "1.prems" have "c \<in> set (dec_nat (n div 10)) \<or> c = digit_char (n mod 10)"
      by auto
    with False "1.IH" show ?thesis
      by (auto simp: is_digit_digit_char)
  qed
qed

lemma scan_digits_all_digits:
  "\<forall>c \<in> set s. is_digit c \<Longrightarrow> scan_digits acc s = Some (dec_value acc s)"
  by (induction s arbitrary: acc) (simp_all add: dec_value_def)

lemma py_digits_all_digits:
  "s \<noteq> [] \<Longrightarrow> \<forall>c \<in> set s. is_digit c \<Longrightarrow> py_digits s = Some (dec_value 0 s)"
  by (cases s) (simp_all add: py_digits_def scan_digits_all_digits, simp add: dec_value_def)

lemma dec_value_dec_nat: "dec_value 0 (dec_nat n) = int n"
proof (induction n rule: dec_nat.induct)
  case (1 n)
  show ?case
  proof (cases "n < 10")
    case True
    then show ?thesis
      by (subst dec_nat.simps) (simp add: dec_value_def digit_val_digit_char)
  next
    case False
    with "1.IH" have "dec_value 0 (dec_nat (n div 10)) = int (n div 10)" by simp
    with False show ?thesis
      by (subst dec_nat.simps) (simp add: dec_value_def digit_val_digit_char zdiv_int zmod_int)
  qed
qed

lemma py_digits_dec_nat: "py_digits (dec_nat n) = Some (int n)"
  using py_digits_all_digits [of "dec_nat n"] dec_nat_nonempty [of n] dec_nat_digits [of _ n]
  by (simp add: dec_value_dec_nat)

lemma py_strip_id:
  assumes "s \<noteq> []" "\<not> py_space (hd s)" "\<not> py_space (last s)"
  shows "py_strip s = s"
proof -
  from assms have a: "dropWhile py_space s = s" by (cases s) simp_all
  from assms have "rev s \<noteq> []" "\<not> py_space (hd (rev s))" by (simp_all add: hd_rev)
  then have "dropWhile py_space (rev s) = rev s" by (cases "rev s") simp_all
  with a show ?thesis by (simp add: py_strip_def)
qed

lemma digit_not_space: "is_digit c \<Longrightarrow> \<not> py_space c"
  by (auto simp: is_digit_def py_space_def)

lemma digit_not_sign: "is_digit c \<Longrightarrow> c \<noteq> CHR ''-'' \<and> c \<noteq> CHR ''+'' \<and> c \<noteq> CHR ''.''"
  by (auto simp: is_digit_def)

lemma py_strip_dec_nat: "py_strip (dec_nat n) = dec_nat n"
proof (rule py_strip_id)
  show ne: "dec_nat n \<noteq> []" by (rule dec_nat_nonempty)
  then have "hd (dec_nat n) \<in> set (dec_nat n)" "last (dec_nat n) \<in> set (dec_nat n)" by simp_all
  then show "\<not> py_space (hd (dec_nat n))" "\<not> py_space (last (dec_nat n))"
    by (blast dest: dec_nat_digits digit_not_space)+
qed

lemma py_int_dec_nat: "py_int (dec_nat n) = Inr (int n)"
proof -
  obtain c cs where s: "dec_nat n = c # cs" using dec_nat_nonempty [of n] by (cases "dec_nat n") auto
  then have "is_digit c" using dec_nat_digits [of c n] by simp
  then have "c \<noteq> CHR ''-''" "c \<noteq> CHR ''+''" using digit_not_sign by blast+
  then show ?thesis
    using py_digits_dec_nat [of n] py_strip_dec_nat [of n] s
    by (simp add: py_int_def)
qed

lemma py_int_py_str: "py_int (py_str n) = Inr n"
proof (cases "n < 0")
  case False
  then show ?thesis by (simp add: py_str_def py_int_dec_nat)
next
  case True
  let ?d = "dec_nat (nat (- n))"
  have ne: "?d \<noteq> []" by (rule dec_nat_nonempty)
  then have "last ?d \<in> set ?d" by simp
  then have "\<not> py_space (last ?d)" by (blast dest: dec_nat_digits digit_not_space)
  then have "py_strip (CHR ''-'' # ?d) = CHR ''-'' # ?d"
    using ne by (intro py_strip_id) (simp_all add: py_space_def)
  with True show ?thesis
    by (simp add: py_str_def py_int_def py_digits_dec_nat)
qed

lemma py_split_no_sep: "sep \<notin> set s \<Longrightarrow> py_split sep s = [s]"
  by (induction s) auto

lemma py_split_append: "sep \<notin> set a \<Longrightarrow> py_split sep (a @ sep # b) = a # py_split sep b"
  by (induction a) auto

lemma dot_notin_py_str: "CHR ''.'' \<notin> set (py_str n)"
  using dec_nat_digits digit_not_sign by (auto simp: py_str_def)

lemma parse_version_py_str:
  "parse_version (py_str m @ ''.'' @ py_str n) = Inr (m, n)"
  by (simp add: parse_version_def py_split_append py_split_no_sep dot_notin_py_str py_int_py_str)

lemma parse_version_major_only: "parse_version (py_str m) = Inr (m, 0)"
  by (simp add: parse_version_def py_split_no_sep dot_notin_py_str py_int_py_str)

lemma digit_val_nonneg: "is_digit c \<Longrightarrow> 0 \<le> digit_val c"
  by (simp add: is_digit_def digit_val_def)

lemma scan_digits_nonneg: "scan_digits acc s = Some n \<Longrightarrow> 0 \<le> acc \<Longrightarrow> 0 \<le> n"
proof (induction acc s rule: scan_digits.induct)
  case (1 acc)
  then show ?case by simp
next
  case (2 acc c cs)
  then show ?case
    by (auto simp: digit_val_nonneg split: if_splits list.splits)
qed

lemma py_digits_nonneg: "py_digits s = Some n \<Longrightarrow> 0 \<le> n"
  by (auto simp: py_digits_def digit_val_nonneg split: list.splits if_splits
      dest: scan_digits_nonneg)

lemma scan_digits_chars: "scan_digits acc s = Some n \<Longrightarrow> c \<in> set s \<Longrightarrow> is_digit c \<or> c = CHR ''_''"
proof (induction acc s rule: scan_digits.induct)
  case (1 acc)
  then show ?case by simp
next
  case (2 acc d cs)
  then show ?case
    by (auto split: if_splits list.splits)
qed

lemma py_digits_chars: "py_digits s = Some n \<Longrightarrow> c \<in> set s \<Longrightarrow> is_digit c \<or> c = CHR ''_''"
  by (auto simp: py_digits_def split: list.splits if_splits dest: scan_digits_chars)

lemma set_py_strip: "set (py_strip s) \<subseteq> set s"
proof
  fix c assume "c \<in> set (py_strip s)"
  then have "c \<in> set (dropWhile py_space (rev (dropWhile py_space s)))"
    by (simp add: py_strip_def)
  then have "c \<in> set (rev (dropWhile py_space s))" by (rule set_dropWhileD)
  then have "c \<in> set (dropWhile py_space s)" by simp
  then show "c \<in> set s" by (rule set_dropWhileD)
qed

lemma py_strip_rest: "c \<in> set s \<Longrightarrow> c \<in> set (py_strip s) \<or> py_space c"
proof -
  assume c: "c \<in> set s"
  let ?t = "dropWhile py_space s"
  have "s = takeWhile py_space s @ ?t" by simp
  with c have "c \<in> set (takeWhile py_space s) \<or> c \<in> set ?t"
    by (metis Un_iff set_append)
  moreover have "rev ?t = takeWhile py_space (rev ?t) @ dropWhile py_space (rev ?t)" by simp
  then have "set ?t = set (takeWhile py_space (rev ?t)) \<union> set (dropWhile py_space (rev ?t))"
    by (metis set_append set_rev)
  ultimately show ?thesis
    by (auto simp: py_strip_def dest: set_takeWhileD)
qed

lemma py_int_error: "py_int s = Inl e \<Longrightarrow> e = ValueError"
  by (auto simp: py_int_def Let_def split: option.splits)

lemma py_int_nonneg: "py_int s = Inr n \<Longrightarrow> CHR ''-'' \<notin> set s \<Longrightarrow> 0 \<le> n"
proof -
  assume a: "py_int s = Inr n" and m: "CHR ''-'' \<notin> set s"
  from m set_py_strip [of s] have "CHR ''-'' \<notin> set (py_strip s)" by blast
  with a show ?thesis
    by (cases "py_strip s")
       (auto simp: py_int_def Let_def split: option.splits if_splits dest: py_digits_nonneg)
qed

lemma py_int_chars: "py_int s = Inr n \<Longrightarrow> c \<in> set s \<Longrightarrow> int_char c"
proof -
  assume a: "py_int s = Inr n" and c: "c \<in> set s"
  show ?thesis
  proof (cases "c \<in> set (py_strip s)")
    case False
    with c py_strip_rest show ?thesis by (auto simp: int_char_def)
  next
    case True
    with a show ?thesis
      by (cases "py_strip s")
         (auto simp: py_int_def Let_def int_char_def split: option.splits if_splits
            dest: py_digits_chars)
  qed
qed

lemma py_int_empty: "py_int [] = Inl ValueError"
  by (simp add: py_int_def py_strip_def)

lemma parse_version_Inl_iff:
  "(\<exists>e. parse_version s = Inl e) \<longleftrightarrow>
   (py_int (py_split (CHR ''.'') s ! 0) = Inl ValueError \<or>
    1 < length (py_split (CHR ''.'') s) \<and> py_int (py_split (CHR ''.'') s ! 1) = Inl ValueError)"
  by (auto simp: parse_version_def Let_def split: sum.splits if_splits dest: py_int_error)

lemma parse_version_error: "parse_version s = Inl e \<Longrightarrow> e = ValueError"
  by (auto simp: parse_version_def Let_def split: sum.splits if_splits dest: py_int_error)

lemma parse_version_major: "parse_version s = Inr (a, b) \<Longrightarrow> py_int (py_split (CHR ''.'') s ! 0) = Inr a"
  by (auto simp: parse_version_def Let_def split: sum.splits if_splits)

lemma parse_version_minor: "parse_version s = Inr (a, b) \<Longrightarrow>
   (if 1 < length (py_split (CHR ''.'') s) then py_int (py_split (CHR ''.'') s ! 1) = Inr b else b = 0)"
  by (auto simp: parse_version_def Let_def split: sum.splits if_splits)

lemma parse_version_drop_rest:
  "CHR ''.'' \<notin> set a \<Longrightarrow> CHR ''.'' \<notin> set b \<Longrightarrow>
   parse_version (a @ ''.'' @ b @ ''.'' @ rest) = parse_version (a @ ''.'' @ b)"
  using py_split_nonempty [of "CHR ''.''" rest]
  by (simp add: parse_version_def py_split_append py_split_no_sep Let_def split: sum.splits)

lemma digit_char_zero: "d < 10 \<Longrightarrow> digit_char d = CHR ''0'' \<Longrightarrow> d = 0"
proof -
  assume d: "d < 10" and "digit_char d = CHR ''0''"
  then have "(of_char (digit_char d) :: nat) = of_char (CHR ''0'')" by simp
  with d show "d = 0" by (simp add: digit_char_def)
qed

lemma dec_nat_zero: "dec_nat 0 = ''0''"
  by code_simp

lemma hd_dec_nat: "hd (dec_nat n) = CHR ''0'' \<Longrightarrow> n = 0"
proof (induction n rule: dec_nat.induct)
  case (1 n)
  show ?case
  proof (cases "n < 10")
    case True
    then have "dec_nat n = [digit_char n]" by (simp add: dec_nat.simps)
    with "1.prems" True show ?thesis by (simp add: digit_char_zero)
  next
    case False
    then have "dec_nat n = dec_nat (n div 10) @ [digit_char (n mod 10)]"
      by (simp add: dec_nat.simps [of n])
    with "1.prems" have "hd (dec_nat (n div 10)) = CHR ''0''"
      by (simp add: dec_nat_nonempty)
    with False "1.IH" have "n div 10 = 0" by simp
    with False show ?thesis by simp
  qed
qed

lemma plain_decimal_dec_nat: "plain_decimal (dec_nat n)"
  using hd_dec_nat [of n] dec_nat_digits [of _ n]
  by (auto simp: plain_decimal_def dec_nat_nonempty list_all_iff dec_nat_zero)

lemma decimal_of_py_str: "decimal_of n (py_str n)"
  by (simp add: decimal_of_def py_str_def plain_decimal_dec_nat dec_value_dec_nat)

lemma py_str_zero: "py_str 0 = ''0''"
  by (simp add: py_str_def dec_nat_zero)

section \<open>The version parser\<close>

text \<open>
  Claim C4. \<open>parse_version\<close> splits its input at the dots; the major number is the
  integer value of the first segment, the minor number that of the second segment when
  there is one and 0 otherwise, and a failing \<open>int()\<close> on a consumed segment is the
  failure of the call. So \<open>"3007.6"\<close> gives (3007, 6) and \<open>"5"\<close> gives (5, 0), the
  empty string and \<open>"a.b"\<close> fail, and every pair of integers is read back from its
  decimal rendering.
\<close>

theorem parse_version_segments:
  "parse_version ''3007.6'' = Inr (3007, 6) \<and>
   parse_version ''5'' = Inr (5, 0) \<and>
   parse_version [] = Inl ValueError \<and>
   parse_version ''a.b'' = Inl ValueError \<and>
   parse_version (py_str m @ ''.'' @ py_str n) = Inr (m, n) \<and>
   parse_version (py_str m) = Inr (m, 0) \<and>
   (case py_split (CHR ''.'') s of
      [] \<Rightarrow> False
    | [p] \<Rightarrow> parse_version s = (case py_int p of Inl e \<Rightarrow> Inl e | Inr a \<Rightarrow> Inr (a, 0))
    | p # q # rest \<Rightarrow>
        parse_version s =
          (case py_int p of
             Inl e \<Rightarrow> Inl e
           | Inr a \<Rightarrow> (case py_int q of Inl e \<Rightarrow> Inl e | Inr b \<Rightarrow> Inr (a, b))))"
proof -
  have ex: "parse_version ''3007.6'' = Inr (3007, 6)" "parse_version ''5'' = Inr (5, 0)"
    "parse_version [] = Inl ValueError" "parse_version ''a.b'' = Inl ValueError"
    by (simp_all add: parse_version_def py_int_def py_strip_def py_space_def py_digits_def
        is_digit_def digit_val_def)
  have seg: "case py_split (CHR ''.'') s of
      [] \<Rightarrow> False
    | [p] \<Rightarrow> parse_version s = (case py_int p of Inl e \<Rightarrow> Inl e | Inr a \<Rightarrow> Inr (a, 0))
    | p # q # rest \<Rightarrow>
        parse_version s =
          (case py_int p of
             Inl e \<Rightarrow> Inl e
           | Inr a \<Rightarrow> (case py_int q of Inl e \<Rightarrow> Inl e | Inr b \<Rightarrow> Inr (a, b)))"
    using py_split_nonempty [of "CHR ''.''" s]
    by (auto simp: parse_version_def split: list.splits sum.splits)
  from ex seg show ?thesis
    by (simp only: parse_version_py_str parse_version_major_only simp_thms)
qed

theorem parse_version_segments_witness:
  "parse_version (py_str 3007 @ ''.'' @ py_str 6) = Inr (3007, 6) \<and>
   py_str 3007 @ ''.'' @ py_str 6 = ''3007.6'' \<and>
   parse_version ''3.4.x'' = Inr (3, 4)"
proof -
  have r: "py_str 3007 @ ''.'' @ py_str 6 = ''3007.6''" by code_simp
  have sp: "py_split (CHR ''.'') ''3.4.x'' = [''3'', ''4'', ''x'']" by simp
  have i: "py_int ''3'' = Inr 3" "py_int ''4'' = Inr 4"
    by (simp_all add: py_int_def py_strip_def py_space_def py_digits_def is_digit_def digit_val_def)
  from parse_version_segments [of 3007 6 "''3.4.x''"] r sp i show ?thesis
    by simp
qed

text \<open>
  Claim C5, as stated, fails: only the first two segments are ever converted, so a
  segment that is not numeric in third or later position does not make the call fail.
  \<open>"3.4.x"\<close> has the segment \<open>"x"\<close>, which \<open>int()\<close> rejects, and parses to (3, 4).
\<close>

theorem parse_version_ignores_later_segments:
  "py_split (CHR ''.'') ''3.4.x'' = [''3'', ''4'', ''x''] \<and>
   py_int ''x'' = Inl ValueError \<and>
   parse_version ''3.4.x'' = Inr (3, 4)"
  by (simp add: parse_version_def py_int_def py_strip_def py_space_def py_digits_def
      is_digit_def digit_val_def)

text \<open>
  Claim C5, amended. \<open>parse_version\<close> fails, always with \<open>ValueError\<close>, exactly when
  \<open>int()\<close> rejects the first segment or, when there is one, the second; in particular
  whenever one of these two segments holds a character that is not a digit, white
  space, a sign or an underscore. Segments after the second have no influence on the
  result.
\<close>

theorem parse_version_fails_on_consumed_segment:
  "((\<exists>e. parse_version s = Inl e) \<longleftrightarrow>
      (py_int (py_split (CHR ''.'') s ! 0) = Inl ValueError \<or>
       1 < length (py_split (CHR ''.'') s) \<and>
       py_int (py_split (CHR ''.'') s ! 1) = Inl ValueError)) \<and>
   (parse_version s = Inl e \<longrightarrow> e = ValueError) \<and>
   ((\<exists>c \<in> set (py_split (CHR ''.'') s ! 0). \<not> int_char c) \<longrightarrow>
      parse_version s = Inl ValueError) \<and>
   (1 < length (py_split (CHR ''.'') s) \<and>
    (\<exists>c \<in> set (py_split (CHR ''.'') s ! 1). \<not> int_char c) \<longrightarrow>
      parse_version s = Inl ValueError) \<and>
   (CHR ''.'' \<notin> set a \<and> CHR ''.'' \<notin> set b \<longrightarrow>
      parse_version (a @ ''.'' @ b @ ''.'' @ rest) = parse_version (a @ ''.'' @ b))"
proof -
  let ?parts = "py_split (CHR ''.'') s"
  have iff: "(\<exists>e. parse_version s = Inl e) \<longleftrightarrow>
      (py_int (?parts ! 0) = Inl ValueError \<or>
       1 < length ?parts \<and> py_int (?parts ! 1) = Inl ValueError)"
    by (rule parse_version_Inl_iff)
  have err: "parse_version s = Inl e \<longrightarrow> e = ValueError"
    by (blast dest: parse_version_error)
  have bad: "py_int p = Inl ValueError" if "\<exists>c \<in> set p. \<not> int_char c" for p
  proof (cases "py_int p")
    case (Inl x)
    then show ?thesis by (simp add: py_int_error)
  next
    case (Inr n)
    with that py_int_chars show ?thesis by blast
  qed
  have first: "(\<exists>c \<in> set (?parts ! 0). \<not> int_char c) \<longrightarrow> parse_version s = Inl ValueError"
  proof
    assume "\<exists>c \<in> set (?parts ! 0). \<not> int_char c"
    then have "py_int (?parts ! 0) = Inl ValueError" by (rule bad)
    with iff obtain x where "parse_version s = Inl x" by blast
    then show "parse_version s = Inl ValueError" by (simp add: parse_version_error)
  qed
  have second: "1 < length ?parts \<and> (\<exists>c \<in> set (?parts ! 1). \<not> int_char c) \<longrightarrow>
      parse_version s = Inl ValueError"
  proof
    assume h: "1 < length ?parts \<and> (\<exists>c \<in> set (?parts ! 1). \<not> int_char c)"
    then have "py_int (?parts ! 1) = Inl ValueError" by (blast intro: bad)
    with h iff obtain x where "parse_version s = Inl x" by blast
    then show "parse_version s = Inl ValueError" by (simp add: parse_version_error)
  qed
  have rest: "CHR ''.'' \<notin> set a \<and> CHR ''.'' \<notin> set b \<longrightarrow>
      parse_version (a @ ''.'' @ b @ ''.'' @ rest) = parse_version (a @ ''.'' @ b)"
    by (blast intro: parse_version_drop_rest)
  from iff err first second rest show ?thesis by blast
qed

theorem parse_version_fails_on_consumed_segment_witness:
  "(\<exists>c \<in> set (py_split (CHR ''.'') ''3.x.4'' ! 1). \<not> int_char c) \<and>
   1 < length (py_split (CHR ''.'') ''3.x.4'') \<and>
   parse_version ''3.x.4'' = Inl ValueError \<and>
   CHR ''.'' \<notin> set ''3'' \<and> CHR ''.'' \<notin> set ''4'' \<and>
   parse_version (''3'' @ ''.'' @ ''4'' @ ''.'' @ ''x'') = parse_version (''3'' @ ''.'' @ ''4'')"
proof -
  have sp: "py_split (CHR ''.'') ''3.x.4'' = [''3'', ''x'', ''4'']" by simp
  have x: "\<not> int_char (CHR ''x'')"
    by (simp add: int_char_def is_digit_def py_space_def)
  have d: "CHR ''.'' \<notin> set ''3''" "CHR ''.'' \<notin> set ''4''" by simp_all
  from parse_version_fails_on_consumed_segment [of "''3.x.4''" ValueError "''3''" "''4''" "''x''"]
    sp x d show ?thesis
    by simp
qed

text \<open>
  Claim C6, as stated, fails: \<open>int()\<close> accepts a minus sign, so \<open>"-3.-5"\<close> parses to
  the pair (-3, -5).
\<close>

theorem parse_version_negative:
  "parse_version ''-3.-5'' = Inr (- 3, - 5) \<and> \<not> (0 \<le> (- 3 :: int)) \<and> \<not> (0 \<le> (- 5 :: int))"
  by (simp add: parse_version_def py_int_def py_strip_def py_space_def py_digits_def
      is_digit_def digit_val_def)

text \<open>
  Claim C6, amended. When \<open>parse_version\<close> succeeds, the major number is non-negative
  if the first segment holds no minus sign, and the minor number is non-negative if
  there is no second segment or it holds no minus sign.
\<close>

theorem parse_version_nonneg_without_minus:
  assumes "parse_version s = Inr (major, minor)"
  shows "(CHR ''-'' \<notin> set (py_split (CHR ''.'') s ! 0) \<longrightarrow> 0 \<le> major) \<and>
         ((1 < length (py_split (CHR ''.'') s) \<longrightarrow>
             CHR ''-'' \<notin> set (py_split (CHR ''.'') s ! 1)) \<longrightarrow> 0 \<le> minor)"
proof -
  let ?parts = "py_split (CHR ''.'') s"
  from assms have ma: "py_int (?parts ! 0) = Inr major" by (rule parse_version_major)
  from assms have mi: "if 1 < length ?parts then py_int (?parts ! 1) = Inr minor else minor = 0"
    by (rule parse_version_minor)
  from ma have "CHR ''-'' \<notin> set (?parts ! 0) \<longrightarrow> 0 \<le> major"
    by (blast dest: py_int_nonneg)
  moreover from mi have "(1 < length ?parts \<longrightarrow> CHR ''-'' \<notin> set (?parts ! 1)) \<longrightarrow> 0 \<le> minor"
    by (cases "1 < length ?parts") (auto dest: py_int_nonneg)
  ultimately show ?thesis by blast
qed

theorem parse_version_nonneg_without_minus_witness:
  "parse_version ''+3.5'' = Inr (3, 5) \<and>
   CHR ''-'' \<notin> set (py_split (CHR ''.'') ''+3.5'' ! 0) \<and>
   CHR ''-'' \<notin> set (py_split (CHR ''.'') ''+3.5'' ! 1) \<and>
   (0::int) \<le> 3 \<and> (0::int) \<le> 5"
proof -
  have p: "parse_version ''+3.5'' = Inr (3, 5)"
    by (simp add: parse_version_def py_int_def py_strip_def py_space_def py_digits_def
        is_digit_def digit_val_def)
  have sp: "py_split (CHR ''.'') ''+3.5'' = [''+3'', ''5'']" by simp
  from parse_version_nonneg_without_minus [OF p] p sp show ?thesis by simp
qed

text \<open>
  Claim C10. \<open>parse_version\<close> is as lenient as \<open>int()\<close>: white space around a
  segment, a leading sign and an underscore between digits are all accepted, so
  \<open>" 3 .5"\<close> and \<open>"+3.5"\<close> parse to (3, 5) and \<open>"1_0.2"\<close> to (10, 2).
\<close>

theorem parse_version_lenient:
  "parse_version '' 3 .5'' = Inr (3, 5) \<and>
   parse_version ''+3.5'' = Inr (3, 5) \<and>
   parse_version ''1_0.2'' = Inr (10, 2)"
  by (simp add: parse_version_def py_int_def py_strip_def py_space_def py_digits_def
      is_digit_def digit_val_def)

section \<open>The classifier\<close>

lemma map_result_Inr:
  "map_result f xs = Inr ys \<Longrightarrow> ys = map (\<lambda>x. projr (f x)) xs \<and> (\<forall>x \<in> set xs. \<exists>y. f x = Inr y)"
  by (induction xs arbitrary: ys) (auto split: sum.splits)

lemma map_result_Inl_iff:
  "(\<exists>e. map_result f xs = Inl e) \<longleftrightarrow> (\<exists>x \<in> set xs. \<exists>e. f x = Inl e)"
  by (induction xs) (auto split: sum.splits)

lemma filter_by_version_Inr:
  assumes "filter_by_version mv md = Inr (upd, hi, unr)"
  shows "\<exists>ma mi. parse_version mv = Inr (ma, mi) \<and>
     unr = map fst (filter (\<lambda>item. snd item ''saltversion'' = None) md) \<and>
     (\<forall>item \<in> set md. snd item ''saltversion'' \<noteq> None \<longrightarrow>
        (\<exists>v. parse_field (snd item ''saltversion'') = Inr v)) \<and>
     upd = map (\<lambda>p. (fst p, format_version (snd p)))
            (filter (\<lambda>p. fst (snd p) < ma \<and> snd (snd p) < mi)
               (map parsed_item (filter (\<lambda>item. snd item ''saltversion'' \<noteq> None) md))) \<and>
     hi = map (\<lambda>p. (fst p, format_version (snd p)))
            (filter (\<lambda>p. fst (snd p) = ma \<and> mi < snd (snd p))
               (map parsed_item (filter (\<lambda>item. snd item ''saltversion'' \<noteq> None) md)))"
proof -
  let ?g = "\<lambda>item :: string \<times> host_record. case parse_field (snd item ''saltversion'') of
                Inl e \<Rightarrow> Inl e | Inr v \<Rightarrow> Inr (fst item, v)"
  let ?resp = "filter (\<lambda>item. snd item ''saltversion'' \<noteq> None) md"
  from assms obtain ma mi where mx: "parse_version mv = Inr (ma, mi)"
    by (auto simp: filter_by_version_def split: sum.splits)
  with assms obtain parsed where p: "map_result ?g ?resp = Inr parsed"
    by (auto simp: filter_by_version_def Let_def split: sum.splits)
  from map_result_Inr [OF p] have pm: "parsed = map (\<lambda>x. projr (?g x)) ?resp"
    and ok: "\<forall>x \<in> set ?resp. \<exists>y. ?g x = Inr y" by blast+
  have ok': "\<exists>v. parse_field (snd item ''saltversion'') = Inr v"
    if "item \<in> set md" "snd item ''saltversion'' \<noteq> None" for item
  proof -
    from that have "item \<in> set ?resp" by simp
    with ok obtain y where "?g item = Inr y" by blast
    then show ?thesis by (cases "parse_field (snd item ''saltversion'')") simp_all
  qed
  have "projr (?g x) = parsed_item x" if "x \<in> set ?resp" for x
  proof -
    from that ok' [of x] obtain v where "parse_field (snd x ''saltversion'') = Inr v" by auto
    then show ?thesis by (simp add: parsed_item_def)
  qed
  with pm have pm': "parsed = map parsed_item ?resp" by simp
  from assms mx p pm' ok' show ?thesis
    by (simp add: filter_by_version_def Let_def)
qed

lemma filter_by_version_Inl_iff:
  "(\<exists>e. filter_by_version mv md = Inl e) \<longleftrightarrow>
     ((\<exists>e. parse_version mv = Inl e) \<or>
      (\<exists>item \<in> set md. snd item ''saltversion'' \<noteq> None \<and>
         (\<exists>e. parse_field (snd item ''saltversion'') = Inl e)))"
proof -
  let ?g = "\<lambda>item :: string \<times> host_record. case parse_field (snd item ''saltversion'') of
                Inl e \<Rightarrow> Inl e | Inr v \<Rightarrow> Inr (fst item, v)"
  let ?resp = "filter (\<lambda>item. snd item ''saltversion'' \<noteq> None) md"
  have g: "(\<exists>e. ?g x = Inl e) \<longleftrightarrow> (\<exists>e. parse_field (snd x ''saltversion'') = Inl e)" for x
    by (cases "parse_field (snd x ''saltversion'')") simp_all
  have top: "(\<exists>e. filter_by_version mv md = Inl e) \<longleftrightarrow>
      ((\<exists>e. parse_version mv = Inl e) \<or> (\<exists>e. map_result ?g ?resp = Inl e))"
    by (auto simp: filter_by_version_def Let_def split: sum.splits)
  have "(\<exists>e. map_result ?g ?resp = Inl e) \<longleftrightarrow> (\<exists>x \<in> set ?resp. \<exists>e. ?g x = Inl e)"
    by (rule map_result_Inl_iff)
  also have "\<dots> \<longleftrightarrow> (\<exists>x \<in> set ?resp. \<exists>e. parse_field (snd x ''saltversion'') = Inl e)"
    by (simp only: g)
  also have "\<dots> \<longleftrightarrow> (\<exists>item \<in> set md. snd item ''saltversion'' \<noteq> None \<and>
         (\<exists>e. parse_field (snd item ''saltversion'') = Inl e))"
    unfolding Bex_def set_filter mem_Collect_eq by (simp only: conj_assoc)
  finally have inner: "(\<exists>e. map_result ?g ?resp = Inl e) \<longleftrightarrow>
      (\<exists>item \<in> set md. snd item ''saltversion'' \<noteq> None \<and>
         (\<exists>e. parse_field (snd item ''saltversion'') = Inl e))" .
  show ?thesis unfolding top inner ..
qed

lemma host_unique:
  "distinct (map fst md) \<Longrightarrow> (hid, r) \<in> set md \<Longrightarrow> (hid, r') \<in> set md \<Longrightarrow> r' = r"
  by (meson eq_key_imp_eq_value)

lemma filter_by_version_host:
  assumes res: "filter_by_version mv md = Inr (upd, hi, unr)"
    and d: "distinct (map fst md)"
    and host: "(hid, r) \<in> set md"
  shows "\<exists>ma mi. parse_version mv = Inr (ma, mi) \<and>
     (hid \<in> set unr \<longleftrightarrow> r ''saltversion'' = None) \<and>
     (r ''saltversion'' = None \<longrightarrow> hid \<notin> fst ` set upd \<and> hid \<notin> fst ` set hi) \<and>
     (r ''saltversion'' \<noteq> None \<longrightarrow>
        (\<exists>a b. parse_field (r ''saltversion'') = Inr (a, b) \<and>
           (hid \<in> fst ` set upd \<longleftrightarrow> a < ma \<and> b < mi) \<and>
           (hid \<in> fst ` set hi \<longleftrightarrow> a = ma \<and> mi < b) \<and>
           (\<forall>s. (hid, s) \<in> set upd \<or> (hid, s) \<in> set hi \<longrightarrow> s = format_version (a, b))))"
proof -
  let ?resp = "filter (\<lambda>item. snd item ''saltversion'' \<noteq> None) md"
  from filter_by_version_Inr [OF res] obtain ma mi where
    mx: "parse_version mv = Inr (ma, mi)" and
    unr: "unr = map fst (filter (\<lambda>item. snd item ''saltversion'' = None) md)" and
    ok: "\<forall>item \<in> set md. snd item ''saltversion'' \<noteq> None \<longrightarrow>
        (\<exists>v. parse_field (snd item ''saltversion'') = Inr v)" and
    upd: "upd = map (\<lambda>p. (fst p, format_version (snd p)))
            (filter (\<lambda>p. fst (snd p) < ma \<and> snd (snd p) < mi) (map parsed_item ?resp))" and
    hi: "hi = map (\<lambda>p. (fst p, format_version (snd p)))
            (filter (\<lambda>p. fst (snd p) = ma \<and> mi < snd (snd p)) (map parsed_item ?resp))"
    by blast
  have uniq: "r' = r" if "(hid, r') \<in> set md" for r'
    using host_unique [OF d host that] .
  have in_parsed: "(hid, v) \<in> set (map parsed_item ?resp) \<longleftrightarrow>
      r ''saltversion'' \<noteq> None \<and> v = projr (parse_field (r ''saltversion''))" for v
  proof
    assume "(hid, v) \<in> set (map parsed_item ?resp)"
    then obtain item where i: "item \<in> set md" "snd item ''saltversion'' \<noteq> None"
      "parsed_item item = (hid, v)" by auto
    then have "fst item = hid" by (simp add: parsed_item_def)
    with i(1) have "(hid, snd item) \<in> set md" by (metis prod.collapse)
    then have "snd item = r" by (rule uniq)
    with i show "r ''saltversion'' \<noteq> None \<and> v = projr (parse_field (r ''saltversion''))"
      by (auto simp: parsed_item_def)
  next
    assume "r ''saltversion'' \<noteq> None \<and> v = projr (parse_field (r ''saltversion''))"
    with host have "(hid, r) \<in> set ?resp" "parsed_item (hid, r) = (hid, v)"
      by (simp_all add: parsed_item_def)
    then show "(hid, v) \<in> set (map parsed_item ?resp)" by force
  qed
  have a: "hid \<in> set unr \<longleftrightarrow> r ''saltversion'' = None"
  proof
    assume "hid \<in> set unr"
    with unr obtain item where "item \<in> set md" "snd item ''saltversion'' = None" "fst item = hid"
      by auto
    then show "r ''saltversion'' = None" using uniq [of "snd item"] by (metis prod.collapse)
  next
    assume "r ''saltversion'' = None"
    with host unr show "hid \<in> set unr" by force
  qed
  have u: "(hid, s) \<in> set upd \<longleftrightarrow> r ''saltversion'' \<noteq> None \<and>
      (let v = projr (parse_field (r ''saltversion'')) in
         fst v < ma \<and> snd v < mi \<and> s = format_version v)" for s
  proof -
    have "(hid, s) \<in> set upd \<longleftrightarrow>
        (\<exists>v. (hid, v) \<in> set (map parsed_item ?resp) \<and> fst v < ma \<and> snd v < mi \<and> s = format_version v)"
      unfolding upd by (auto simp: image_iff)
    then show ?thesis unfolding in_parsed by (auto simp: Let_def)
  qed
  have h: "(hid, s) \<in> set hi \<longleftrightarrow> r ''saltversion'' \<noteq> None \<and>
      (let v = projr (parse_field (r ''saltversion'')) in
         fst v = ma \<and> mi < snd v \<and> s = format_version v)" for s
  proof -
    have "(hid, s) \<in> set hi \<longleftrightarrow>
        (\<exists>v. (hid, v) \<in> set (map parsed_item ?resp) \<and> fst v = ma \<and> mi < snd v \<and> s = format_version v)"
      unfolding hi by (auto simp: image_iff)
    then show ?thesis unfolding in_parsed by (auto simp: Let_def)
  qed
  have fu: "hid \<in> fst ` set upd \<longleftrightarrow> (\<exists>s. (hid, s) \<in> set upd)" by force
  have fh: "hid \<in> fst ` set hi \<longleftrightarrow> (\<exists>s. (hid, s) \<in> set hi)" by force
  have none: "r ''saltversion'' = None \<longrightarrow> hid \<notin> fst ` set upd \<and> hid \<notin> fst ` set hi"
    unfolding fu fh u h by simp
  have some: "r ''saltversion'' \<noteq> None \<longrightarrow>
        (\<exists>a b. parse_field (r ''saltversion'') = Inr (a, b) \<and>
           (hid \<in> fst ` set upd \<longleftrightarrow> a < ma \<and> b < mi) \<and>
           (hid \<in> fst ` set hi \<longleftrightarrow> a = ma \<and> mi < b) \<and>
           (\<forall>s. (hid, s) \<in> set upd \<or> (hid, s) \<in> set hi \<longrightarrow> s = format_version (a, b)))"
  proof
    assume ne: "r ''saltversion'' \<noteq> None"
    with ok host obtain a b where v: "parse_field (r ''saltversion'') = Inr (a, b)" by force
    with ne show "\<exists>a b. parse_field (r ''saltversion'') = Inr (a, b) \<and>
           (hid \<in> fst ` set upd \<longleftrightarrow> a < ma \<and> b < mi) \<and>
           (hid \<in> fst ` set hi \<longleftrightarrow> a = ma \<and> mi < b) \<and>
           (\<forall>s. (hid, s) \<in> set upd \<or> (hid, s) \<in> set hi \<longrightarrow> s = format_version (a, b))"
      unfolding fu fh u h by (simp add: Let_def)
  qed
  show ?thesis
    by (intro exI [of _ ma] exI [of _ mi] conjI mx a none some)
qed

lemma parse_field_JStr: "parse_field (Some (JStr s)) = parse_version s"
  by (simp add: parse_field_def)

lemma parse_field_Inr:
  "parse_field v = Inr p \<Longrightarrow> \<exists>s. v = Some (JStr s) \<and> parse_version s = Inr p"
  by (auto simp: parse_field_def split: option.splits jvalue.splits)

lemmas eval_defs = parse_version_def py_int_def py_strip_def py_space_def py_digits_def
      is_digit_def digit_val_def

lemma parse_samples:
  "parse_version ''3007.6'' = Inr (3007, 6)"
  "parse_version ''3006.2'' = Inr (3006, 2)"
  "parse_version ''3007.9'' = Inr (3007, 9)"
  "parse_version ''3007.5'' = Inr (3007, 5)"
  "parse_version ''5'' = Inr (5, 0)"
  "parse_version ''3.x'' = Inl ValueError"
  by (simp_all add: eval_defs)

lemma format_samples:
  "format_version (3006, 2) = ''3006.2''"
  "format_version (3007, 9) = ''3007.9''"
  "format_version (5, 0) = ''5.0''"
  by code_simp+

lemma sample_result:
  "filter_by_version ''3007.6'' sample_inventory =
     Inr ([(''h1'', ''3006.2''), (''h5'', ''5.0'')], [(''h2'', ''3007.9'')], [''h3''])"
  by (simp add: filter_by_version_def sample_inventory_def parse_field_def parse_samples
      format_samples)

lemma sample_distinct: "distinct (map fst sample_inventory)"
  by (simp add: sample_inventory_def)

lemma filter_by_version_succeeds:
  assumes "parse_version mv = Inr mx"
    and "\<forall>item \<in> set md. snd item ''saltversion'' \<noteq> None \<longrightarrow>
           (\<exists>v. parse_field (snd item ''saltversion'') = Inr v)"
  shows "\<exists>upd hi unr. filter_by_version mv md = Inr (upd, hi, unr)"
proof (cases "filter_by_version mv md")
  case (Inl e)
  then have "\<exists>e. filter_by_version mv md = Inl e" by blast
  with filter_by_version_Inl_iff [of mv md] assms show ?thesis by auto
next
  case (Inr res)
  then show ?thesis by (cases res) auto
qed

lemma sample_fields_parse:
  "\<forall>item \<in> set sample_inventory. snd item ''saltversion'' \<noteq> None \<longrightarrow>
     (\<exists>v. parse_field (snd item ''saltversion'') = Inr v)"
  by (simp add: sample_inventory_def parse_field_def parse_samples)

text \<open>
  Claim C1. When the maximum version parses and so does every version field present
  in the inventory, the call returns its three lists, and a host whose version string
  parses to (major, minor) is in the updatable list if and only if major is below the
  major number of the maximum version and minor is below its minor number: both, not
  the lexicographic order. So a host with a lower major number and a minor number that is
  not lower is not updatable, and neither is a host with the same major number and a
  lower minor number.
\<close>

theorem updatable_iff_both_less:
  assumes "parse_version max_version = Inr (max_major, max_minor)"
    and "\<forall>item \<in> set md. snd item ''saltversion'' \<noteq> None \<longrightarrow>
           (\<exists>v. parse_field (snd item ''saltversion'') = Inr v)"
    and "distinct (map fst md)"
    and "(hid, r) \<in> set md"
    and "r ''saltversion'' = Some (JStr s)"
    and "parse_version s = Inr (major, minor)"
  shows "\<exists>upd hi unr. filter_by_version max_version md = Inr (upd, hi, unr) \<and>
         (hid \<in> fst ` set upd \<longleftrightarrow> major < max_major \<and> minor < max_minor) \<and>
         (major < max_major \<and> max_minor \<le> minor \<longrightarrow> hid \<notin> fst ` set upd) \<and>
         (major = max_major \<and> minor < max_minor \<longrightarrow> hid \<notin> fst ` set upd)"
proof -
  from filter_by_version_succeeds [OF assms(1,2)] obtain upd hi unr where
    res: "filter_by_version max_version md = Inr (upd, hi, unr)" by blast
  from assms(5,6) have pf: "parse_field (r ''saltversion'') = Inr (major, minor)"
    by (simp add: parse_field_JStr)
  from filter_by_version_host [OF res assms(3,4)] assms(1,5) pf
  have "hid \<in> fst ` set upd \<longleftrightarrow> major < max_major \<and> minor < max_minor"
    by auto
  with res show ?thesis by auto
qed

theorem updatable_iff_both_less_witness:
  "parse_version ''3007.6'' = Inr (3007, 6) \<and>
   distinct (map fst sample_inventory) \<and>
   (''h1'', [''saltversion'' \<mapsto> JStr ''3006.2'']) \<in> set sample_inventory \<and>
   parse_version ''3006.2'' = Inr (3006, 2) \<and>
   (\<exists>upd hi unr. filter_by_version ''3007.6'' sample_inventory = Inr (upd, hi, unr) \<and>
      ''h1'' \<in> fst ` set upd)"
proof -
  have h: "(''h1'', [''saltversion'' \<mapsto> JStr ''3006.2'']) \<in> set sample_inventory"
    by (simp add: sample_inventory_def)
  have f: "[''saltversion'' \<mapsto> JStr ''3006.2''] ''saltversion'' = Some (JStr ''3006.2'')"
    by simp
  from updatable_iff_both_less [OF parse_samples(1) sample_fields_parse sample_distinct h f
      parse_samples(2)]
  have "\<exists>upd hi unr. filter_by_version ''3007.6'' sample_inventory = Inr (upd, hi, unr) \<and>
      ''h1'' \<in> fst ` set upd"
    by simp
  with parse_samples(1,2) sample_distinct h show ?thesis by blast
qed

text \<open>
  Claim C2. When the maximum version parses and so does every version field present
  in the inventory, the call returns its three lists, and a host whose version string
  parses to (major, minor) is in the higher-version list if and only if major equals
  the major number of the maximum version and minor is above its minor number; a host with
  another major number is never in that list.
\<close>

theorem higher_iff_same_major:
  assumes "parse_version max_version = Inr (max_major, max_minor)"
    and "\<forall>item \<in> set md. snd item ''saltversion'' \<noteq> None \<longrightarrow>
           (\<exists>v. parse_field (snd item ''saltversion'') = Inr v)"
    and "distinct (map fst md)"
    and "(hid, r) \<in> set md"
    and "r ''saltversion'' = Some (JStr s)"
    and "parse_version s = Inr (major, minor)"
  shows "\<exists>upd hi unr. filter_by_version max_version md = Inr (upd, hi, unr) \<and>
         (hid \<in> fst ` set hi \<longleftrightarrow> major = max_major \<and> max_minor < minor) \<and>
         (major \<noteq> max_major \<longrightarrow> hid \<notin> fst ` set hi)"
proof -
  from filter_by_version_succeeds [OF assms(1,2)] obtain upd hi unr where
    res: "filter_by_version max_version md = Inr (upd, hi, unr)" by blast
  from assms(5,6) have pf: "parse_field (r ''saltversion'') = Inr (major, minor)"
    by (simp add: parse_field_JStr)
  from filter_by_version_host [OF res assms(3,4)] assms(1,5) pf
  have "hid \<in> fst ` set hi \<longleftrightarrow> major = max_major \<and> max_minor < minor"
    by auto
  with res show ?thesis by auto
qed

theorem higher_iff_same_major_witness:
  "parse_version ''3007.6'' = Inr (3007, 6) \<and>
   distinct (map fst sample_inventory) \<and>
   (''h2'', [''saltversion'' \<mapsto> JStr ''3007.9'']) \<in> set sample_inventory \<and>
   parse_version ''3007.9'' = Inr (3007, 9) \<and>
   (\<exists>upd hi unr. filter_by_version ''3007.6'' sample_inventory = Inr (upd, hi, unr) \<and>
      ''h2'' \<in> fst ` set hi)"
proof -
  have h: "(''h2'', [''saltversion'' \<mapsto> JStr ''3007.9'']) \<in> set sample_inventory"
    by (simp add: sample_inventory_def)
  have f: "[''saltversion'' \<mapsto> JStr ''3007.9''] ''saltversion'' = Some (JStr ''3007.9'')"
    by simp
  from higher_iff_same_major [OF parse_samples(1) sample_fields_parse sample_distinct h f
      parse_samples(3)]
  have "\<exists>upd hi unr. filter_by_version ''3007.6'' sample_inventory = Inr (upd, hi, unr) \<and>
      ''h2'' \<in> fst ` set hi"
    by simp
  with parse_samples(1,3) sample_distinct h show ?thesis by blast
qed

text \<open>
  Claim C7. The call fails exactly when the maximum version does not parse or some
  host that has the version field has a value there that does not parse. A failed call
  is an error value and nothing else: none of the three lists is returned.
\<close>

theorem failure_is_total:
  "((\<exists>e. filter_by_version max_version md = Inl e) \<longleftrightarrow>
      ((\<exists>e. parse_version max_version = Inl e) \<or>
       (\<exists>item \<in> set md. snd item ''saltversion'' \<noteq> None \<and>
          (\<exists>e. parse_field (snd item ''saltversion'') = Inl e)))) \<and>
   ((hid, r) \<in> set md \<and> r ''saltversion'' = Some (JStr s) \<and> parse_version s = Inl e \<longrightarrow>
      (\<exists>e'. filter_by_version max_version md = Inl e') \<and>
      (\<forall>res. filter_by_version max_version md \<noteq> Inr res)) \<and>
   (parse_version max_version = Inl e \<longrightarrow> filter_by_version max_version md = Inl e)"
proof -
  have iff: "(\<exists>e. filter_by_version max_version md = Inl e) \<longleftrightarrow>
      ((\<exists>e. parse_version max_version = Inl e) \<or>
       (\<exists>item \<in> set md. snd item ''saltversion'' \<noteq> None \<and>
          (\<exists>e. parse_field (snd item ''saltversion'') = Inl e)))"
    by (rule filter_by_version_Inl_iff)
  have host: "(\<exists>e'. filter_by_version max_version md = Inl e') \<and>
      (\<forall>res. filter_by_version max_version md \<noteq> Inr res)"
    if h: "(hid, r) \<in> set md \<and> r ''saltversion'' = Some (JStr s) \<and> parse_version s = Inl e"
  proof -
    from h have "snd (hid, r) ''saltversion'' \<noteq> None \<and>
        parse_field (snd (hid, r) ''saltversion'') = Inl e"
      by (simp add: parse_field_JStr)
    with h have "\<exists>item \<in> set md. snd item ''saltversion'' \<noteq> None \<and>
          (\<exists>e. parse_field (snd item ''saltversion'') = Inl e)" by blast
    with iff obtain e' where "filter_by_version max_version md = Inl e'" by blast
    then show ?thesis by simp
  qed
  have mx: "parse_version max_version = Inl e \<longrightarrow> filter_by_version max_version md = Inl e"
    by (simp add: filter_by_version_def)
  from iff host mx show ?thesis by blast
qed

theorem failure_is_total_witness:
  "(''h2'', [''saltversion'' \<mapsto> JStr ''3.x'']) \<in>
     set [(''h1'', [''saltversion'' \<mapsto> JStr ''3006.2'']), (''h2'', [''saltversion'' \<mapsto> JStr ''3.x''])] \<and>
   parse_version ''3.x'' = Inl ValueError \<and>
   (\<exists>e'. filter_by_version ''3007.6''
            [(''h1'', [''saltversion'' \<mapsto> JStr ''3006.2'']),
             (''h2'', [''saltversion'' \<mapsto> JStr ''3.x''])] = Inl e')"
proof -
  let ?md = "[(''h1'', [''saltversion'' \<mapsto> JStr ''3006.2'']),
              (''h2'', [''saltversion'' \<mapsto> JStr ''3.x''])] :: inventory"
  have h: "(''h2'', [''saltversion'' \<mapsto> JStr ''3.x'']) \<in> set ?md" by simp
  have f: "[''saltversion'' \<mapsto> JStr ''3.x''] ''saltversion'' = Some (JStr ''3.x'')" by simp
  from failure_is_total [of "''3007.6''" ?md "''h2''" "[''saltversion'' \<mapsto> JStr ''3.x'']" "''3.x''" ValueError]
    h f parse_samples(6)
  show ?thesis by blast
qed

lemma in_range_host:
  assumes d: "distinct (map fst md)" and host: "(hid, r) \<in> set md"
  shows "in_range mv md hid \<longleftrightarrow>
     r ''saltversion'' \<noteq> None \<and>
     (case (parse_version mv, parse_field (r ''saltversion'')) of
        (Inr (max_major, max_minor), Inr (major, minor)) \<Rightarrow>
          \<not> (major < max_major \<and> minor < max_minor) \<and>
          \<not> (major = max_major \<and> minor > max_minor)
      | _ \<Rightarrow> False)"
    (is "_ \<longleftrightarrow> ?P r")
proof
  assume "in_range mv md hid"
  then obtain item where i: "item \<in> set md" "fst item = hid" "?P (snd item)"
    unfolding in_range_def list_ex_iff by blast
  then have "(hid, snd item) \<in> set md" by (metis prod.collapse)
  from host_unique [OF d host this] i(3) show "?P r" by simp
next
  assume "?P r"
  with host have "\<exists>item \<in> set md. fst item = hid \<and> ?P (snd item)"
    by (intro bexI [of _ "(hid, r)"]) simp_all
  then show "in_range mv md hid"
    unfolding in_range_def list_ex_iff by blast
qed

lemma one_bucket_of_result:
  assumes "filter_by_version max_version md = Inr (upd, hi, unr)"
    and "distinct (map fst md)"
    and "hid \<in> fst ` set md"
  shows "count_list [hid \<in> set unr, hid \<in> fst ` set upd, hid \<in> fst ` set hi,
                     in_range max_version md hid] True = 1 \<and>
         \<not> (hid \<in> set unr \<and> hid \<in> fst ` set upd) \<and>
         \<not> (hid \<in> set unr \<and> hid \<in> fst ` set hi) \<and>
         \<not> (hid \<in> fst ` set upd \<and> hid \<in> fst ` set hi)"
proof -
  from assms(3) obtain r where host: "(hid, r) \<in> set md" by auto
  from filter_by_version_host [OF assms(1,2) host] obtain ma mi where
    mx: "parse_version max_version = Inr (ma, mi)" and
    a: "hid \<in> set unr \<longleftrightarrow> r ''saltversion'' = None" and
    none: "r ''saltversion'' = None \<longrightarrow> hid \<notin> fst ` set upd \<and> hid \<notin> fst ` set hi" and
    some: "r ''saltversion'' \<noteq> None \<longrightarrow>
        (\<exists>a b. parse_field (r ''saltversion'') = Inr (a, b) \<and>
           (hid \<in> fst ` set upd \<longleftrightarrow> a < ma \<and> b < mi) \<and>
           (hid \<in> fst ` set hi \<longleftrightarrow> a = ma \<and> mi < b) \<and>
           (\<forall>s. (hid, s) \<in> set upd \<or> (hid, s) \<in> set hi \<longrightarrow> s = format_version (a, b)))"
    by (elim exE conjE) (rule that, assumption+)
  note ir = in_range_host [OF assms(2) host, of max_version]
  show ?thesis
  proof (cases "r ''saltversion'' = None")
    case True
    with a none ir show ?thesis by simp
  next
    case False
    with some obtain a' b' where
      pf: "parse_field (r ''saltversion'') = Inr (a', b')" and
      u: "hid \<in> fst ` set upd \<longleftrightarrow> a' < ma \<and> b' < mi" and
      h: "hid \<in> fst ` set hi \<longleftrightarrow> a' = ma \<and> mi < b'"
      by blast
    from False a have nu: "hid \<notin> set unr" by simp
    from False pf mx ir have i: "in_range max_version md hid \<longleftrightarrow>
        \<not> (a' < ma \<and> b' < mi) \<and> \<not> (a' = ma \<and> mi < b')" by simp
    show ?thesis unfolding u h i using nu by auto
  qed
qed

lemma parsed_filter_ids:
  assumes "\<forall>item \<in> set md. snd item ''saltversion'' \<noteq> None \<longrightarrow>
           (\<exists>v. parse_field (snd item ''saltversion'') = Inr v)"
  shows "map fst (map (\<lambda>p. (fst p, format_version (snd p)))
            (filter (\<lambda>p. Q (fst (snd p)) (snd (snd p)))
               (map parsed_item (filter (\<lambda>item. snd item ''saltversion'' \<noteq> None) md)))) =
         map fst (filter (\<lambda>item. case parse_field (snd item ''saltversion'') of
                                   Inl e \<Rightarrow> False
                                 | Inr (major, minor) \<Rightarrow> Q major minor) md)"
  using assms
proof (induction md)
  case Nil
  show ?case by simp
next
  case (Cons item md)
  then have IH: "map fst (map (\<lambda>p. (fst p, format_version (snd p)))
            (filter (\<lambda>p. Q (fst (snd p)) (snd (snd p)))
               (map parsed_item (filter (\<lambda>item. snd item ''saltversion'' \<noteq> None) md)))) =
         map fst (filter (\<lambda>item. case parse_field (snd item ''saltversion'') of
                                   Inl e \<Rightarrow> False
                                 | Inr (major, minor) \<Rightarrow> Q major minor) md)"
    by simp
  show ?case
  proof (cases "snd item ''saltversion'' = None")
    case True
    then have "parse_field (snd item ''saltversion'') = Inl AttributeError"
      by (simp add: parse_field_def)
    with True IH show ?thesis by simp
  next
    case False
    with Cons.prems obtain a b where pv: "parse_field (snd item ''saltversion'') = Inr (a, b)"
      by auto
    then have "parsed_item item = (fst item, (a, b))" by (simp add: parsed_item_def)
    with False pv IH show ?thesis by simp
  qed
qed

lemma in_map_filter:
  "(h, v) \<in> set (map (\<lambda>p. (fst p, f (snd p))) (filter P xs)) \<Longrightarrow>
   \<exists>p \<in> set xs. h = fst p \<and> v = f (snd p)"
  by auto

lemma filter_by_version_ids:
  assumes "filter_by_version mv md = Inr (upd, hi, unr)"
  shows "set unr \<union> fst ` set upd \<union> fst ` set hi \<subseteq> fst ` set md"
proof -
  let ?resp = "filter (\<lambda>item. snd item ''saltversion'' \<noteq> None) md"
  from filter_by_version_Inr [OF assms] obtain ma mi where
    unr: "unr = map fst (filter (\<lambda>item. snd item ''saltversion'' = None) md)" and
    upd: "upd = map (\<lambda>p. (fst p, format_version (snd p)))
            (filter (\<lambda>p. fst (snd p) < ma \<and> snd (snd p) < mi) (map parsed_item ?resp))" and
    hi: "hi = map (\<lambda>p. (fst p, format_version (snd p)))
            (filter (\<lambda>p. fst (snd p) = ma \<and> mi < snd (snd p)) (map parsed_item ?resp))"
    by (elim exE conjE) (rule that, assumption+)
  have parsed: "h \<in> fst ` set md"
    if "\<exists>p \<in> set (map parsed_item ?resp). h = fst p \<and> v = format_version (snd p)" for h v
  proof -
    from that obtain item where "item \<in> set md" "h = fst (parsed_item item)" by auto
    then show ?thesis by (simp add: parsed_item_def)
  qed
  have a: "set unr \<subseteq> fst ` set md" unfolding unr by auto
  have b: "fst ` set upd \<subseteq> fst ` set md"
  proof
    fix h assume "h \<in> fst ` set upd"
    then obtain v where "(h, v) \<in> set upd" by auto
    then have "\<exists>p \<in> set (map parsed_item ?resp). h = fst p \<and> v = format_version (snd p)"
      unfolding upd by (rule in_map_filter)
    then show "h \<in> fst ` set md" by (rule parsed)
  qed
  have c: "fst ` set hi \<subseteq> fst ` set md"
  proof
    fix h assume "h \<in> fst ` set hi"
    then obtain v where "(h, v) \<in> set hi" by auto
    then have "\<exists>p \<in> set (map parsed_item ?resp). h = fst p \<and> v = format_version (snd p)"
      unfolding hi by (rule in_map_filter)
    then show "h \<in> fst ` set md" by (rule parsed)
  qed
  from a b c show ?thesis by (simp only: Un_subset_iff simp_thms)
qed

text \<open>
  Claim C3. When the maximum version parses and so does every version field present
  in the inventory, the call returns its three lists, and every host id of the
  inventory is in exactly one of four buckets: the unresponsive list, the updatable
  list, the higher-version list, or in range and not reported. No id is in two of the
  returned lists, and the lists hold ids of the inventory only.
\<close>

theorem host_in_one_bucket:
  assumes "parse_version max_version = Inr (max_major, max_minor)"
    and "\<forall>item \<in> set md. snd item ''saltversion'' \<noteq> None \<longrightarrow>
           (\<exists>v. parse_field (snd item ''saltversion'') = Inr v)"
    and "distinct (map fst md)"
    and "hid \<in> fst ` set md"
  shows "\<exists>upd hi unr. filter_by_version max_version md = Inr (upd, hi, unr) \<and>
         count_list [hid \<in> set unr, hid \<in> fst ` set upd, hid \<in> fst ` set hi,
                     in_range max_version md hid] True = 1 \<and>
         \<not> (hid \<in> set unr \<and> hid \<in> fst ` set upd) \<and>
         \<not> (hid \<in> set unr \<and> hid \<in> fst ` set hi) \<and>
         \<not> (hid \<in> fst ` set upd \<and> hid \<in> fst ` set hi) \<and>
         set unr \<union> fst ` set upd \<union> fst ` set hi \<subseteq> fst ` set md"
proof -
  from filter_by_version_succeeds [OF assms(1,2)] obtain upd hi unr where
    res: "filter_by_version max_version md = Inr (upd, hi, unr)" by blast
  note b = one_bucket_of_result [OF res assms(3,4)]
  note ids = filter_by_version_ids [OF res]
  show ?thesis
    by (intro exI [of _ upd] exI [of _ hi] exI [of _ unr] conjI res ids
        b [THEN conjunct1] b [THEN conjunct2, THEN conjunct1]
        b [THEN conjunct2, THEN conjunct2, THEN conjunct1]
        b [THEN conjunct2, THEN conjunct2, THEN conjunct2])
qed

theorem host_in_one_bucket_witness:
  "parse_version ''3007.6'' = Inr (3007, 6) \<and>
   distinct (map fst sample_inventory) \<and>
   ''h4'' \<in> fst ` set sample_inventory \<and>
   in_range ''3007.6'' sample_inventory ''h4'' \<and>
   (\<exists>upd hi unr. filter_by_version ''3007.6'' sample_inventory = Inr (upd, hi, unr) \<and>
      count_list [''h4'' \<in> set unr, ''h4'' \<in> fst ` set upd, ''h4'' \<in> fst ` set hi,
                  in_range ''3007.6'' sample_inventory ''h4''] True = 1)"
proof -
  have h: "''h4'' \<in> fst ` set sample_inventory"
    by (simp add: sample_inventory_def)
  have i: "in_range ''3007.6'' sample_inventory ''h4''"
    by (simp add: in_range_def sample_inventory_def parse_field_def parse_samples)
  from host_in_one_bucket [OF parse_samples(1) sample_fields_parse sample_distinct h]
  obtain upd hi unr where
    res: "filter_by_version ''3007.6'' sample_inventory = Inr (upd, hi, unr)" and
    cnt: "count_list [''h4'' \<in> set unr, ''h4'' \<in> fst ` set upd, ''h4'' \<in> fst ` set hi,
                  in_range ''3007.6'' sample_inventory ''h4''] True = 1"
    by (elim exE conjE) (rule that, assumption+)
  show ?thesis
    by (intro conjI exI [of _ upd] exI [of _ hi] exI [of _ unr] parse_samples(1)
        sample_distinct h i res cnt)
qed

text \<open>
  Claim C8. A host flagged updatable or higher-version is recorded with the string
  made of the decimal numeral of its major number, a dot and the decimal numeral of
  its minor number, both without leading zeros. Both parts are always
  there: a version string without a second segment is recorded with the minor
  numeral \<open>0\<close>, so a host reporting \<open>"5"\<close> is recorded as \<open>"5.0"\<close>.
\<close>

theorem flagged_version_rendering:
  assumes "parse_version max_version = Inr (max_major, max_minor)"
    and "\<forall>item \<in> set md. snd item ''saltversion'' \<noteq> None \<longrightarrow>
           (\<exists>v. parse_field (snd item ''saltversion'') = Inr v)"
    and "distinct (map fst md)"
    and "(hid, r) \<in> set md"
    and "r ''saltversion'' = Some (JStr s)"
    and "parse_version s = Inr (major, minor)"
  shows "\<exists>upd hi unr. filter_by_version max_version md = Inr (upd, hi, unr) \<and>
         (major < max_major \<and> minor < max_minor \<longrightarrow>
            (hid, py_str major @ ''.'' @ py_str minor) \<in> set upd) \<and>
         (major = max_major \<and> max_minor < minor \<longrightarrow>
            (hid, py_str major @ ''.'' @ py_str minor) \<in> set hi) \<and>
         (\<forall>v. (hid, v) \<in> set upd \<or> (hid, v) \<in> set hi \<longrightarrow>
            v = py_str major @ ''.'' @ py_str minor) \<and>
         decimal_of major (py_str major) \<and> decimal_of minor (py_str minor) \<and>
         (length (py_split (CHR ''.'') s) = 1 \<longrightarrow> py_str minor = ''0'')"
proof -
  from filter_by_version_succeeds [OF assms(1,2)] obtain upd hi unr where
    res: "filter_by_version max_version md = Inr (upd, hi, unr)" by blast
  from assms(5,6) have pf: "parse_field (r ''saltversion'') = Inr (major, minor)"
    by (simp add: parse_field_JStr)
  from filter_by_version_host [OF res assms(3,4)] assms(1,5) pf
  have u: "hid \<in> fst ` set upd \<longleftrightarrow> major < max_major \<and> minor < max_minor"
    and h: "hid \<in> fst ` set hi \<longleftrightarrow> major = max_major \<and> max_minor < minor"
    and f: "\<forall>v. (hid, v) \<in> set upd \<or> (hid, v) \<in> set hi \<longrightarrow> v = format_version (major, minor)"
    by auto
  have fv: "format_version (major, minor) = py_str major @ ''.'' @ py_str minor"
    by (simp add: format_version_def)
  have inu: "(hid, py_str major @ ''.'' @ py_str minor) \<in> set upd"
    if "major < max_major \<and> minor < max_minor"
  proof -
    from that u obtain v where "(hid, v) \<in> set upd" by force
    with f fv show ?thesis by auto
  qed
  have inh: "(hid, py_str major @ ''.'' @ py_str minor) \<in> set hi"
    if "major = max_major \<and> max_minor < minor"
  proof -
    from that h obtain v where "(hid, v) \<in> set hi" by force
    with f fv show ?thesis by auto
  qed
  have z: "py_str minor = ''0''" if "length (py_split (CHR ''.'') s) = 1"
  proof -
    from parse_version_minor [OF assms(6)] that have "minor = 0" by simp
    then show ?thesis by (simp add: py_str_zero)
  qed
  from res inu inh f fv z decimal_of_py_str [of major] decimal_of_py_str [of minor]
  show ?thesis by (intro exI [of _ upd] exI [of _ hi] exI [of _ unr]) simp
qed

theorem flagged_version_rendering_witness:
  "parse_version ''3007.6'' = Inr (3007, 6) \<and>
   distinct (map fst sample_inventory) \<and>
   (''h5'', [''saltversion'' \<mapsto> JStr ''5'']) \<in> set sample_inventory \<and>
   parse_version ''5'' = Inr (5, 0) \<and>
   py_str 5 @ ''.'' @ py_str 0 = ''5.0'' \<and>
   (\<exists>upd hi unr. filter_by_version ''3007.6'' sample_inventory = Inr (upd, hi, unr) \<and>
      (''h5'', ''5.0'') \<in> set upd)"
proof -
  have h: "(''h5'', [''saltversion'' \<mapsto> JStr ''5'']) \<in> set sample_inventory"
    by (simp add: sample_inventory_def)
  have f: "[''saltversion'' \<mapsto> JStr ''5''] ''saltversion'' = Some (JStr ''5'')"
    by simp
  have r: "py_str 5 @ ''.'' @ py_str 0 = ''5.0''"
    using format_samples(3) by (simp add: format_version_def)
  from flagged_version_rendering [OF parse_samples(1) sample_fields_parse sample_distinct h f
      parse_samples(5)] r
  have "\<exists>upd hi unr. filter_by_version ''3007.6'' sample_inventory = Inr (upd, hi, unr) \<and>
      (''h5'', ''5.0'') \<in> set upd"
    by simp blast
  with parse_samples(1,5) sample_distinct h r show ?thesis by blast
qed

text \<open>
  Claim C9. The unresponsive list holds the ids of the hosts without the version
  field, in the order of the inventory; the updatable and the higher-version list hold
  the ids of the hosts that satisfy their predicate, in the order of the inventory.
  Only the fields that are present have to parse for the call to return: a host
  without the field is never parsed.
\<close>

theorem lists_follow_inventory_order:
  assumes "parse_version max_version = Inr (max_major, max_minor)"
    and "\<forall>item \<in> set md. snd item ''saltversion'' \<noteq> None \<longrightarrow>
           (\<exists>v. parse_field (snd item ''saltversion'') = Inr v)"
  shows "\<exists>upd hi.
     filter_by_version max_version md =
       Inr (upd, hi, map fst (filter (\<lambda>item. snd item ''saltversion'' = None) md)) \<and>
     map fst upd =
       map fst (filter (\<lambda>item. case parse_field (snd item ''saltversion'') of
                                 Inl e \<Rightarrow> False
                               | Inr (major, minor) \<Rightarrow> major < max_major \<and> minor < max_minor) md) \<and>
     map fst hi =
       map fst (filter (\<lambda>item. case parse_field (snd item ''saltversion'') of
                                 Inl e \<Rightarrow> False
                               | Inr (major, minor) \<Rightarrow> major = max_major \<and> max_minor < minor) md)"
proof -
  let ?resp = "filter (\<lambda>item. snd item ''saltversion'' \<noteq> None) md"
  from filter_by_version_succeeds [OF assms(1,2)] obtain upd hi unr where
    res: "filter_by_version max_version md = Inr (upd, hi, unr)" by blast
  from filter_by_version_Inr [OF res] assms(1) have
    unr: "unr = map fst (filter (\<lambda>item. snd item ''saltversion'' = None) md)" and
    upd: "upd = map (\<lambda>p. (fst p, format_version (snd p)))
            (filter (\<lambda>p. fst (snd p) < max_major \<and> snd (snd p) < max_minor)
               (map parsed_item ?resp))" and
    hi: "hi = map (\<lambda>p. (fst p, format_version (snd p)))
            (filter (\<lambda>p. fst (snd p) = max_major \<and> max_minor < snd (snd p))
               (map parsed_item ?resp))"
    by auto
  have u: "map fst upd =
       map fst (filter (\<lambda>item. case parse_field (snd item ''saltversion'') of
                                 Inl e \<Rightarrow> False
                               | Inr (major, minor) \<Rightarrow> major < max_major \<and> minor < max_minor) md)"
    unfolding upd
    by (rule parsed_filter_ids [OF assms(2), of "\<lambda>a b. a < max_major \<and> b < max_minor"])
  have h: "map fst hi =
       map fst (filter (\<lambda>item. case parse_field (snd item ''saltversion'') of
                                 Inl e \<Rightarrow> False
                               | Inr (major, minor) \<Rightarrow> major = max_major \<and> max_minor < minor) md)"
    unfolding hi
    by (rule parsed_filter_ids [OF assms(2), of "\<lambda>a b. a = max_major \<and> max_minor < b"])
  from res unr u h show ?thesis by blast
qed

theorem lists_follow_inventory_order_witness:
  "parse_version ''3007.6'' = Inr (3007, 6) \<and>
   map fst sample_inventory = [''h1'', ''h2'', ''h3'', ''h4'', ''h5''] \<and>
   (\<exists>upd hi. filter_by_version ''3007.6'' sample_inventory = Inr (upd, hi, [''h3'']) \<and>
      map fst upd = [''h1'', ''h5''] \<and> map fst hi = [''h2''])"
proof -
  have ids: "map fst sample_inventory = [''h1'', ''h2'', ''h3'', ''h4'', ''h5'']"
    by (simp add: sample_inventory_def)
  have a: "map fst (filter (\<lambda>item. snd item ''saltversion'' = None) sample_inventory) = [''h3'']"
    by (simp add: sample_inventory_def)
  have b: "map fst (filter (\<lambda>item. case parse_field (snd item ''saltversion'') of
                                 Inl e \<Rightarrow> False
                               | Inr (major, minor) \<Rightarrow> major < 3007 \<and> minor < 6)
              sample_inventory) = [''h1'', ''h5'']"
    by (simp add: sample_inventory_def parse_field_def parse_samples)
  have c: "map fst (filter (\<lambda>item. case parse_field (snd item ''saltversion'') of
                                 Inl e \<Rightarrow> False
                               | Inr (major, minor) \<Rightarrow> major = 3007 \<and> 6 < minor)
              sample_inventory) = [''h2'']"
    by (simp add: sample_inventory_def parse_field_def parse_samples)
  from lists_follow_inventory_order [OF parse_samples(1) sample_fields_parse]
  have "\<exists>upd hi. filter_by_version ''3007.6'' sample_inventory = Inr (upd, hi, [''h3'']) \<and>
      map fst upd = [''h1'', ''h5''] \<and> map fst hi = [''h2'']"
    unfolding a b c .
  with parse_samples(1) ids show ?thesis by blast
qed

end
